theory Spec2Isabelle
  imports Main "HOL-Library.AList" "HOL-Library.Char_ord" "HOL-Library.List_Lexorder"
    "HOL-Library.Sublist"
begin

section \<open>The dataset\<close>

text \<open>
  \<^verbatim>\<open>df = pd.read_excel(DATA_PATH)\<close> is a table with the columns \<^verbatim>\<open>Station\<close>,
  \<^verbatim>\<open>Connected_Station\<close> and \<^verbatim>\<open>Line\<close>. A data frame is the list of its rows, in
  row order; the cells are text. Strings are ordered as Python orders them
  (lexicographically, character by character).
\<close>

record row =
  station :: string
  connected_station :: string
  line :: string

type_synonym dataframe = "row list"

subsection \<open>\<^verbatim>\<open>str(x).strip().title()\<close>\<close>

text \<open>
  Python's \<^verbatim>\<open>str.strip\<close> and \<^verbatim>\<open>str.title\<close> on ASCII text: \<^verbatim>\<open>strip\<close> removes the
  leading and trailing white space (the characters for which \<^verbatim>\<open>isspace\<close> holds),
  \<^verbatim>\<open>title\<close> upper-cases a letter that does not follow a letter and lower-cases a letter
  that does. Characters outside ASCII are left as they are and count as uncased (Python
  also strips the spaces of Unicode beyond ASCII and cases its letters); the line labels of
  the examples are ASCII, and no general statement depends on what the normalisation does.
\<close>

definition isspace :: "char \<Rightarrow> bool" where
  "isspace c = (let n = (of_char c :: nat) in (9 \<le> n \<and> n \<le> 13) \<or> (28 \<le> n \<and> n \<le> 32))"

definition strip :: "string \<Rightarrow> string" where
  "strip s = rev (dropWhile isspace (rev (dropWhile isspace s)))"

definition islower :: "char \<Rightarrow> bool" where
  "islower c = (let n = (of_char c :: nat) in 97 \<le> n \<and> n \<le> 122)"

definition isupper :: "char \<Rightarrow> bool" where
  "isupper c = (let n = (of_char c :: nat) in 65 \<le> n \<and> n \<le> 90)"

definition upper :: "char \<Rightarrow> char" where
  "upper c = (if islower c then char_of (of_char c - (32 :: nat)) else c)"

definition lower :: "char \<Rightarrow> char" where
  "lower c = (if isupper c then char_of (of_char c + (32 :: nat)) else c)"

fun title_from :: "bool \<Rightarrow> string \<Rightarrow> string" where
  "title_from previous_is_cased [] = []"
| "title_from previous_is_cased (c # cs) =
     (if islower c then (if previous_is_cased then c else upper c) # title_from True cs
      else if isupper c then (if previous_is_cased then lower c else c) # title_from True cs
      else c # title_from False cs)"

definition title :: "string \<Rightarrow> string" where
  "title s = title_from False s"

definition normalize :: "string \<Rightarrow> string" where
  "normalize s = title (strip s)"

section \<open>The graph\<close>

text \<open>
  \<^verbatim>\<open>G = nx.Graph()\<close> keeps a dictionary of dictionaries: \<^verbatim>\<open>G._adj[u][v]\<close> holds the
  attributes of the edge between \<^verbatim>\<open>u\<close> and \<^verbatim>\<open>v\<close>, here the one attribute
  \<^verbatim>\<open>line\<close>. Python dictionaries keep insertion order and assignment to an existing
  key keeps its position, which is what \<^const>\<open>AList.update\<close> does on an association list.
\<close>

type_synonym graph = "(string \<times> (string \<times> string) list) list"

definition nodes :: "graph \<Rightarrow> string list" where
  "nodes G = map fst G"

definition adj :: "graph \<Rightarrow> string \<Rightarrow> (string \<times> string) list" where
  "adj G u = (case map_of G u of None \<Rightarrow> [] | Some nbrs \<Rightarrow> nbrs)"

definition neighbors :: "graph \<Rightarrow> string \<Rightarrow> string list" where
  "neighbors G u = map fst (adj G u)"

definition edge_line :: "graph \<Rightarrow> string \<Rightarrow> string \<Rightarrow> string option" where
  "edge_line G u v = map_of (adj G u) v"

definition add_node :: "string \<Rightarrow> graph \<Rightarrow> graph" where
  "add_node u G = (if map_of G u = None then G @ [(u, [])] else G)"

text \<open>
  \<^verbatim>\<open>G.add_edge(u, v, line=l)\<close>: both end points become nodes if they are not yet, and
  the attribute is written to \<^verbatim>\<open>_adj[u][v]\<close> and to \<^verbatim>\<open>_adj[v][u]\<close>, over whatever
  an earlier call stored there.
\<close>

definition add_edge :: "string \<Rightarrow> string \<Rightarrow> string \<Rightarrow> graph \<Rightarrow> graph" where
  "add_edge u v l G =
     (let G1 = add_node u G;
          G2 = add_node v G1;
          G3 = AList.update u (AList.update v l (adj G2 u)) G2
      in AList.update v (AList.update u l (adj G3 v)) G3)"

text \<open>
  \<^verbatim>\<open>
  G = nx.Graph()
  for _, row in df.iterrows():
      line = str(row["Line"]).strip().title()
      G.add_edge(row["Station"], row["Connected_Station"], line=line)
  \<close>
\<close>

definition build_graph :: "dataframe \<Rightarrow> graph" where
  "build_graph df =
     foldl (\<lambda>G r. add_edge (station r) (connected_station r) (normalize (line r)) G) [] df"

text \<open>\<^verbatim>\<open>stations = sorted(set(df["Station"]).union(set(df["Connected_Station"])))\<close>\<close>

definition stations :: "dataframe \<Rightarrow> string list" where
  "stations df = sorted_list_of_set (set (map station df) \<union> set (map connected_station df))"

section \<open>Shortest paths\<close>

text \<open>
  Modelled from the spec: \<^verbatim>\<open>nx.shortest_path(G, source, destination)\<close>, a routine of
  the networkx library, whose code is not part of the repository. The spec describes it
  as an unweighted breadth-first search that minimises the hop count and leaves the choice
  among several shortest paths open; the library documents that it raises
  \<^verbatim>\<open>NodeNotFound\<close> when an end point is not a node of the graph and
  \<^verbatim>\<open>NetworkXNoPath\<close> when the target cannot be reached. The model is the library's
  level-by-level search that keeps, for every node reached, the path that reached it first
  (a dictionary \<^verbatim>\<open>paths\<close> and the list of the nodes of the current level).
\<close>

datatype nx_exception = NodeNotFound | NetworkXNoPath

type_synonym paths = "(string \<times> string list) list"

text \<open>
  \<^verbatim>\<open>
  for w in adj[v]:
      if w not in paths:
          paths[w] = paths[v] + [w]
          nextlevel.append(w)
  \<close>
\<close>

fun visit :: "string list \<Rightarrow> string list \<Rightarrow> paths \<times> string list \<Rightarrow> paths \<times> string list" where
  "visit pv [] (P, nextlevel) = (P, nextlevel)"
| "visit pv (w # ws) (P, nextlevel) =
     (if map_of P w = None
      then visit pv ws (AList.update w (pv @ [w]) P, nextlevel @ [w])
      else visit pv ws (P, nextlevel))"

fun expand :: "graph \<Rightarrow> string list \<Rightarrow> paths \<times> string list \<Rightarrow> paths \<times> string list" where
  "expand G [] (P, nextlevel) = (P, nextlevel)"
| "expand G (v # vs) (P, nextlevel) =
     (case map_of P v of
        None \<Rightarrow> expand G vs (P, nextlevel)
      | Some pv \<Rightarrow> expand G vs (visit pv (neighbors G v) (P, nextlevel)))"

definition all_neighbors :: "graph \<Rightarrow> string set" where
  "all_neighbors G = (\<Union>(u, nbrs) \<in> set G. fst ` set nbrs)"

definition unseen :: "graph \<Rightarrow> paths \<Rightarrow> string set" where
  "unseen G P = all_neighbors G - fst ` set P"

text \<open>
  \<^verbatim>\<open>
  while nextlevel:
      thislevel = nextlevel
      nextlevel = []
      for v in thislevel:
          ...
  return paths
  \<close>
\<close>

function bfs :: "graph \<Rightarrow> paths \<Rightarrow> string list \<Rightarrow> paths" where
  "bfs G P thislevel =
     (if thislevel = [] then P
      else (case expand G thislevel (P, []) of (P', nextlevel) \<Rightarrow> bfs G P' nextlevel))"
  by pat_completeness auto

definition shortest_path :: "graph \<Rightarrow> string \<Rightarrow> string \<Rightarrow> nx_exception + string list" where
  "shortest_path G source target =
     (if source \<notin> set (nodes G) \<or> target \<notin> set (nodes G) then Inl NodeNotFound
      else (case map_of (bfs G [(source, [source])] [source]) target of
              None \<Rightarrow> Inl NetworkXNoPath
            | Some path \<Rightarrow> Inr path))"

section \<open>The route display\<close>

datatype emoji =
  Blue_circle | Yellow_circle | Red_circle | Green_circle | Pink_heart | Blue_diamond
| Orange_circle | Black_circle | Brown_circle | White_circle

definition line_colors :: "(string \<times> emoji) list" where
  "line_colors =
     [(''Blue Line'', Blue_circle),
      (''Yellow Line'', Yellow_circle),
      (''Red Line'', Red_circle),
      (''Green Line'', Green_circle),
      (''Pink Line'', Pink_heart),
      (''Violet Line'', Blue_diamond),
      (''Orange Line'', Orange_circle),
      (''Magenta Line'', Blue_diamond),
      (''Grey Line'', Black_circle),
      (''Airport Express'', Brown_circle)]"

text \<open>
  \<^verbatim>\<open>
  line_info = df[
      ((df["Station"] == station) & (df["Connected_Station"].isin(path))) |
      ((df["Connected_Station"] == station) & (df["Station"].isin(path)))
  ]["Line"].values
  line_str = str(line_info[0]).strip().title() if len(line_info) > 0 else "N/A"
  emoji = next((emoji for name, emoji in line_colors.items()
                if line_str.startswith(name)), WHITE)
  \<close>
\<close>

definition line_info :: "dataframe \<Rightarrow> string list \<Rightarrow> string \<Rightarrow> string list" where
  "line_info df path st =
     map line (filter (\<lambda>r. (station r = st \<and> connected_station r \<in> set path) \<or>
                            (connected_station r = st \<and> station r \<in> set path)) df)"

definition line_str :: "dataframe \<Rightarrow> string list \<Rightarrow> string \<Rightarrow> string" where
  "line_str df path st =
     (let info = line_info df path st in if length info > 0 then normalize (hd info) else ''N/A'')"

definition emoji_of :: "string \<Rightarrow> emoji" where
  "emoji_of l = (case find (\<lambda>(name, e). prefix name l) line_colors of
                   Some (name, e) \<Rightarrow> e | None \<Rightarrow> White_circle)"

text \<open>One displayed line per station: its number, the station, the marker and the label.\<close>

definition route_path :: "dataframe \<Rightarrow> string list \<Rightarrow> (nat \<times> string \<times> emoji \<times> string) list" where
  "route_path df path =
     map (\<lambda>(i, st). (i + 1, st, emoji_of (line_str df path st), line_str df path st))
       (enumerate 0 path)"

text \<open>
  \<^verbatim>\<open>
  df[((df["Station"] == u) & (df["Connected_Station"] == v)) |
     ((df["Station"] == v) & (df["Connected_Station"] == u))]["Line"].values
  \<close>
\<close>

definition pair_lines :: "dataframe \<Rightarrow> string \<Rightarrow> string \<Rightarrow> string list" where
  "pair_lines df u v =
     map line (filter (\<lambda>r. (station r = u \<and> connected_station r = v) \<or>
                            (station r = v \<and> connected_station r = u)) df)"

text \<open>
  \<^verbatim>\<open>
  interchanges = []
  for i in range(1, len(path) - 1):
      curr_line = ... path[i - 1], path[i] ...
      next_line = ... path[i], path[i + 1] ...
      if len(curr_line) > 0 and len(next_line) > 0:
          curr_line = str(curr_line[0]).strip().title()
          next_line = str(next_line[0]).strip().title()
          if curr_line != next_line:
              interchanges.append((path[i], curr_line, next_line))
  \<close>
\<close>

definition interchange_step ::
  "dataframe \<Rightarrow> string list \<Rightarrow> (string \<times> string \<times> string) list \<Rightarrow> nat
     \<Rightarrow> (string \<times> string \<times> string) list" where
  "interchange_step df path acc i =
     (let curr_line = pair_lines df (path ! (i - 1)) (path ! i);
          next_line = pair_lines df (path ! i) (path ! (i + 1))
      in if length curr_line > 0 \<and> length next_line > 0
         then (let c = normalize (hd curr_line); n = normalize (hd next_line)
               in if c \<noteq> n then acc @ [(path ! i, c, n)] else acc)
         else acc)"

definition interchanges :: "dataframe \<Rightarrow> string list \<Rightarrow> (string \<times> string \<times> string) list" where
  "interchanges df path = foldl (interchange_step df path) [] [1 ..< length path - 1]"

text \<open>
  \<^verbatim>\<open>
  from_emoji = line_colors.get(from_line, WHITE)
  to_emoji = line_colors.get(to_line, WHITE)
  st.warning(f"{station}: {from_emoji} {from_line} -> {to_emoji} {to_line}")
  \<close>
\<close>

definition colors_get :: "string \<Rightarrow> emoji" where
  "colors_get l = (case map_of line_colors l of Some e \<Rightarrow> e | None \<Rightarrow> White_circle)"

definition interchange_warning ::
  "string \<times> string \<times> string \<Rightarrow> string \<times> emoji \<times> string \<times> emoji \<times> string" where
  "interchange_warning = (\<lambda>(st, from_line, to_line).
     (st, colors_get from_line, from_line, colors_get to_line, to_line))"

section \<open>The \<^verbatim>\<open>Get Route\<close> handler\<close>

text \<open>
  What the handler shows: the warning for equal stations, the route with its figures, or
  the error for \<^verbatim>\<open>NetworkXNoPath\<close>, the one exception the \<^verbatim>\<open>try\<close> block catches.
  Any other exception of the library leaves the handler uncaught.
\<close>

record report =
  path_of :: "string list"
  total_stops :: int
  displayed :: "(nat \<times> string \<times> emoji \<times> string) list"
  estimated_time :: int
  interchanges_of :: "(string \<times> string \<times> string) list"
  warnings :: "(string \<times> emoji \<times> string \<times> emoji \<times> string) list"

datatype shown =
  Warning_same_station
| Route_found report
| Error_no_path
| Uncaught nx_exception
| Error_file_empty

definition annotate :: "dataframe \<Rightarrow> string list \<Rightarrow> report" where
  "annotate df path =
     \<lparr> path_of = path,
       total_stops = int (length path) - 1,
       displayed = route_path df path,
       estimated_time = (int (length path) - 1) * 2,
       interchanges_of = interchanges df path,
       warnings = map interchange_warning (interchanges df path) \<rparr>"

definition get_route :: "dataframe \<Rightarrow> graph \<Rightarrow> string \<Rightarrow> string \<Rightarrow> shown" where
  "get_route df G source destination =
     (if source = destination then Warning_same_station
      else (case shortest_path G source destination of
              Inr path \<Rightarrow> Route_found (annotate df path)
            | Inl NetworkXNoPath \<Rightarrow> Error_no_path
            | Inl e \<Rightarrow> Uncaught e))"

definition route_finder :: "dataframe \<Rightarrow> string \<Rightarrow> string \<Rightarrow> shown" where
  "route_finder df source destination =
     (if df = [] then Error_file_empty
      else get_route df (build_graph df) source destination)"

section \<open>Walks\<close>

fun is_walk :: "graph \<Rightarrow> string list \<Rightarrow> bool" where
  "is_walk G [] = False"
| "is_walk G [v] = True"
| "is_walk G (u # v # vs) = (v \<in> set (neighbors G u) \<and> is_walk G (v # vs))"

definition walk_from_to :: "graph \<Rightarrow> string \<Rightarrow> string \<Rightarrow> string list \<Rightarrow> bool" where
  "walk_from_to G s t p = (is_walk G p \<and> hd p = s \<and> last p = t)"

definition shortest_walk :: "graph \<Rightarrow> string \<Rightarrow> string \<Rightarrow> string list \<Rightarrow> bool" where
  "shortest_walk G s t p =
     (walk_from_to G s t p \<and> (\<forall>q. walk_from_to G s t q \<longrightarrow> length p \<le> length q))"

text \<open>
  What holds of the dictionary \<^verbatim>\<open>paths\<close> and of the current level after \<open>k\<close> rounds
  of the search from \<open>s\<close>: every entry is a shortest walk of at most \<open>k\<close> edges, every
  node within \<open>k\<close> edges has an entry, and the level holds the nodes at exactly \<open>k\<close>
  edges.
\<close>

definition level_inv :: "graph \<Rightarrow> string \<Rightarrow> nat \<Rightarrow> paths \<Rightarrow> string list \<Rightarrow> bool" where
  "level_inv G s k P lvl =
     ((\<forall>w p. map_of P w = Some p \<longrightarrow> shortest_walk G s w p \<and> length p \<le> Suc k) \<and>
      (\<forall>w q. walk_from_to G s w q \<and> length q \<le> Suc k \<longrightarrow> map_of P w \<noteq> None) \<and>
      set lvl = {w. \<exists>p. map_of P w = Some p \<and> length p = Suc k})"

text \<open>The number of edges of the shortest walks from \<open>s\<close> to \<open>t\<close>.\<close>

definition hop_distance :: "graph \<Rightarrow> string \<Rightarrow> string \<Rightarrow> nat \<Rightarrow> bool" where
  "hop_distance G s t n =
     ((\<exists>q. walk_from_to G s t q \<and> length q - 1 = n) \<and>
      (\<forall>q. walk_from_to G s t q \<longrightarrow> n \<le> length q - 1))"

text \<open>A row joins two stations when they are its two cells, in either order.\<close>

definition joins :: "string \<Rightarrow> string \<Rightarrow> row \<Rightarrow> bool" where
  "joins u v r =
     ((station r = u \<and> connected_station r = v) \<or> (station r = v \<and> connected_station r = u))"

text \<open>
  The line the interchange loop resolves for two stations: the normalised \<^verbatim>\<open>Line\<close> of the
  first row of the dataset that joins them, if there is one.
\<close>

definition resolved_line :: "dataframe \<Rightarrow> string \<Rightarrow> string \<Rightarrow> string option" where
  "resolved_line df u v = (case pair_lines df u v of [] \<Rightarrow> None | l # ls \<Rightarrow> Some (normalize l))"

text \<open>The lines resolved for the consecutive pairs of a path, in path order.\<close>

definition lbl :: "dataframe \<Rightarrow> string list \<Rightarrow> nat \<Rightarrow> string" where
  "lbl df path j = normalize (hd (pair_lines df (path ! j) (path ! Suc j)))"

definition path_lines :: "dataframe \<Rightarrow> string list \<Rightarrow> string list" where
  "path_lines df path = map (lbl df path) [0 ..< length path - 1]"

text \<open>
  A row joins the station at position \<open>i\<close> of a path to itself, to the station before it
  or to the station after it.
\<close>

definition adjacent_row :: "string list \<Rightarrow> nat \<Rightarrow> row \<Rightarrow> bool" where
  "adjacent_row path i r =
     (joins (path ! i) (path ! i) r \<or>
      (0 < i \<and> joins (path ! (i - 1)) (path ! i) r) \<or>
      (Suc i < length path \<and> joins (path ! i) (path ! Suc i) r))"

section \<open>Example datasets\<close>

text \<open>The scenario of the spec: A - B and B - C on the red line, C - D on the blue line.\<close>

definition scenario :: dataframe where
  "scenario =
     [\<lparr>station = ''A'', connected_station = ''B'', line = ''red''\<rparr>,
      \<lparr>station = ''B'', connected_station = ''C'', line = ''red''\<rparr>,
      \<lparr>station = ''C'', connected_station = ''D'', line = ''blue''\<rparr>]"

text \<open>The scenario with a second, unconnected part X - Y.\<close>

definition two_parts :: dataframe where
  "two_parts = scenario @ [\<lparr>station = ''X'', connected_station = ''Y'', line = ''green''\<rparr>]"

text \<open>Two rows for the pair A, B with different lines, then B - C.\<close>

definition doubled :: dataframe where
  "doubled =
     [\<lparr>station = ''A'', connected_station = ''B'', line = ''red''\<rparr>,
      \<lparr>station = ''A'', connected_station = ''B'', line = ''blue''\<rparr>,
      \<lparr>station = ''B'', connected_station = ''C'', line = ''blue''\<rparr>]"

text \<open>The same rows with the two rows for the pair A, B in the other order.\<close>

definition swapped :: dataframe where
  "swapped =
     [\<lparr>station = ''A'', connected_station = ''B'', line = ''blue''\<rparr>,
      \<lparr>station = ''A'', connected_station = ''B'', line = ''red''\<rparr>,
      \<lparr>station = ''B'', connected_station = ''C'', line = ''blue''\<rparr>]"

section \<open>The graph of a dataset\<close>

text \<open>
  The edge between two stations carries the line of the last row that joins them, two
  stations are neighbours exactly when some row joins them, and the nodes are the stations
  of the two columns.
\<close>

lemma map_of_add_node:
  "map_of (add_node u G) x = (if map_of G u = None \<and> x = u then Some [] else map_of G x)"
  by (auto simp: add_node_def map_add_def split: option.splits)

lemma edge_line_add_edge:
  "edge_line (add_edge a b l G) u v =
     (if (u = a \<and> v = b) \<or> (u = b \<and> v = a) then Some l else edge_line G u v)"
  by (auto simp: edge_line_def add_edge_def Let_def adj_def update_conv' map_of_add_node
      split: option.splits)

lemma nodes_add_edge: "set (nodes (add_edge a b l G)) = {a, b} \<union> set (nodes G)"
  by (auto simp: nodes_def add_edge_def Let_def dom_update add_node_def)

lemma build_graph_snoc:
  "build_graph (df @ [r]) =
     add_edge (station r) (connected_station r) (normalize (line r)) (build_graph df)"
  by (simp add: build_graph_def)

lemma joins_sym: "joins u v r = joins v u r"
  by (auto simp: joins_def)

lemma pair_lines_joins: "pair_lines df u v = map line (filter (joins u v) df)"
  by (simp add: pair_lines_def joins_def [abs_def])

lemma edge_line_build_graph:
  "edge_line (build_graph df) u v =
     (if filter (joins u v) df = [] then None
      else Some (normalize (line (last (filter (joins u v) df)))))"
proof (induction df rule: rev_induct)
  case Nil
  show ?case by (simp add: build_graph_def edge_line_def adj_def)
next
  case (snoc r df)
  have c: "((u = station r \<and> v = connected_station r) \<or>
            (u = connected_station r \<and> v = station r)) = joins u v r"
    by (auto simp: joins_def)
  show ?case
    unfolding build_graph_snoc edge_line_add_edge snoc.IH c
    by simp
qed

lemma neighbors_iff: "v \<in> set (neighbors G u) \<longleftrightarrow> edge_line G u v \<noteq> None"
  by (simp add: neighbors_def edge_line_def map_of_eq_None_iff)

lemma neighbors_build_graph:
  "v \<in> set (neighbors (build_graph df) u) \<longleftrightarrow> (\<exists>r \<in> set df. joins u v r)"
  by (simp add: neighbors_iff edge_line_build_graph filter_empty_conv)

lemma nodes_build_graph:
  "set (nodes (build_graph df)) = station ` set df \<union> connected_station ` set df"
proof (induction df rule: rev_induct)
  case Nil
  show ?case by (simp add: build_graph_def nodes_def)
next
  case (snoc r df)
  show ?case
    unfolding build_graph_snoc nodes_add_edge snoc.IH by auto
qed

section \<open>The search terminates\<close>

text \<open>
  One pass over the neighbours of a node adds exactly the neighbours that have no entry
  yet, each with the path of the node extended by it.
\<close>

lemma visit_spec:
  "visit pv ws (P, N) = (P', N') \<Longrightarrow>
     map_of P' = (\<lambda>x. if map_of P x = None \<and> x \<in> set ws then Some (pv @ [x]) else map_of P x) \<and>
     set N' = set N \<union> (set ws - dom (map_of P))"
proof (induction ws arbitrary: P N)
  case Nil
  then show ?case by auto
next
  case (Cons w ws)
  show ?case
  proof (cases "map_of P w = None")
    case True
    then have "visit pv ws (AList.update w (pv @ [w]) P, N @ [w]) = (P', N')"
      using Cons.prems by simp
    from Cons.IH [OF this] True show ?thesis
      by (auto simp: update_conv' fun_eq_iff domIff)
  next
    case False
    then have "visit pv ws (P, N) = (P', N')"
      using Cons.prems by auto
    from Cons.IH [OF this] False show ?thesis
      by (auto simp: fun_eq_iff domIff)
  qed
qed

lemma neighbors_subset: "set (neighbors G v) \<subseteq> all_neighbors G"
proof
  fix w assume "w \<in> set (neighbors G v)"
  then have "\<exists>nb. map_of G v = Some nb \<and> w \<in> fst ` set nb"
    by (cases "map_of G v") (auto simp: neighbors_def adj_def)
  then obtain nb where nb: "map_of G v = Some nb" and w: "w \<in> fst ` set nb"
    by blast
  from nb have "(v, nb) \<in> set G" by (rule map_of_SomeD)
  with w show "w \<in> all_neighbors G"
    unfolding all_neighbors_def by blast
qed

lemma expand_keys:
  "expand G vs (P, N) = (P', N') \<Longrightarrow>
     dom (map_of P) \<subseteq> dom (map_of P') \<and>
     set N' = set N \<union> (dom (map_of P') - dom (map_of P)) \<and>
     dom (map_of P') \<subseteq> dom (map_of P) \<union> all_neighbors G"
proof (induction vs arbitrary: P N)
  case Nil
  then show ?case by auto
next
  case (Cons v vs)
  show ?case
  proof (cases "map_of P v")
    case None
    then have "expand G vs (P, N) = (P', N')" using Cons.prems by simp
    from Cons.IH [OF this] show ?thesis .
  next
    case (Some pv)
    obtain P1 N1 where v: "visit pv (neighbors G v) (P, N) = (P1, N1)"
      by (cases "visit pv (neighbors G v) (P, N)")
    then have e: "expand G vs (P1, N1) = (P', N')" using Cons.prems Some by simp
    have d1: "dom (map_of P1) = dom (map_of P) \<union> set (neighbors G v)"
      using visit_spec [OF v] by (auto simp: domIff split: if_splits)
    have n1: "set N1 = set N \<union> (set (neighbors G v) - dom (map_of P))"
      using visit_spec [OF v] by blast
    from Cons.IH [OF e] d1 n1 neighbors_subset [of G v] show ?thesis
      by auto
  qed
qed

lemma finite_unseen: "finite (unseen G P)"
  by (auto simp: unseen_def all_neighbors_def)

termination bfs
proof (relation "measure (\<lambda>(G, P, l). card (unseen G P) + (if l = [] then 0 else 1))")
  show "wf (measure (\<lambda>(G, P, l). card (unseen G P) + (if l = [] then 0 else 1)))"
    by simp
next
  fix G :: graph and P :: paths and thislevel :: "string list" and x y
  assume l: "thislevel \<noteq> []" and e: "(x, y) = expand G thislevel (P, [])"
  note k = expand_keys [OF e [symmetric]]
  have sub: "unseen G x \<subseteq> unseen G P"
    using k by (auto simp: unseen_def dom_map_of_conv_image_fst)
  show "((G, x, y), (G, P, thislevel)) \<in>
          measure (\<lambda>(G, P, l). card (unseen G P) + (if l = [] then 0 else 1))"
  proof (cases "y = []")
    case True
    with l card_mono [OF finite_unseen sub] show ?thesis by simp
  next
    case False
    then obtain w where w: "w \<in> set y" by (cases y) auto
    with k have "w \<in> unseen G P" "w \<notin> unseen G x"
      by (auto simp: unseen_def dom_map_of_conv_image_fst)
    with sub have "unseen G x \<subset> unseen G P" by blast
    from psubset_card_mono [OF finite_unseen this] l False show ?thesis by simp
  qed
qed

declare bfs.simps [simp del]

section \<open>Walks\<close>

lemma is_walk_nonempty: "is_walk G p \<Longrightarrow> p \<noteq> []"
  by (cases p) auto

lemma is_walk_snoc:
  "is_walk G (p @ [w]) \<longleftrightarrow> p = [] \<or> (is_walk G p \<and> w \<in> set (neighbors G (last p)))"
proof (induction p rule: is_walk.induct)
  case (1 G)
  show ?case by simp
next
  case (2 G v)
  show ?case by simp
next
  case (3 G u v vs)
  then show ?case by auto
qed

lemma is_walk_nth:
  "is_walk G p \<longleftrightarrow> p \<noteq> [] \<and> (\<forall>i. Suc i < length p \<longrightarrow> p ! Suc i \<in> set (neighbors G (p ! i)))"
proof (induction p rule: is_walk.induct)
  case (1 G)
  show ?case by simp
next
  case (2 G v)
  show ?case by simp
next
  case (3 G u v vs)
  show ?case
  proof
    assume a: "is_walk G (u # v # vs)"
    then have "\<forall>i. Suc i < length (v # vs) \<longrightarrow> (v # vs) ! Suc i \<in> set (neighbors G ((v # vs) ! i))"
      using 3 by simp
    with a show "u # v # vs \<noteq> [] \<and>
        (\<forall>i. Suc i < length (u # v # vs) \<longrightarrow> (u # v # vs) ! Suc i \<in> set (neighbors G ((u # v # vs) ! i)))"
      by (auto simp: nth_Cons split: nat.splits)
  next
    assume b: "u # v # vs \<noteq> [] \<and>
        (\<forall>i. Suc i < length (u # v # vs) \<longrightarrow> (u # v # vs) ! Suc i \<in> set (neighbors G ((u # v # vs) ! i)))"
    then have "v \<in> set (neighbors G u)" by force
    moreover have "\<forall>i. Suc i < length (v # vs) \<longrightarrow> (v # vs) ! Suc i \<in> set (neighbors G ((v # vs) ! i))"
    proof (intro allI impI)
      fix i assume "Suc i < length (v # vs)"
      then have "Suc (Suc i) < length (u # v # vs)" by simp
      with b have "(u # v # vs) ! Suc (Suc i) \<in> set (neighbors G ((u # v # vs) ! Suc i))" by blast
      then show "(v # vs) ! Suc i \<in> set (neighbors G ((v # vs) ! i))" by simp
    qed
    ultimately show "is_walk G (u # v # vs)" using 3 by simp
  qed
qed

lemma walk_extend:
  "walk_from_to G s v p \<Longrightarrow> w \<in> set (neighbors G v) \<Longrightarrow> walk_from_to G s w (p @ [w])"
  by (auto simp: walk_from_to_def is_walk_snoc dest: is_walk_nonempty)

lemma walk_cases:
  "walk_from_to G s w q \<Longrightarrow>
     (q = [s] \<and> w = s) \<or>
     (\<exists>q' v. q = q' @ [w] \<and> walk_from_to G s v q' \<and> w \<in> set (neighbors G v))"
proof -
  assume a: "walk_from_to G s w q"
  then have ne: "q \<noteq> []" by (auto simp: walk_from_to_def dest: is_walk_nonempty)
  then obtain q' x where q: "q = q' @ [x]" by (cases q rule: rev_cases) auto
  with a have x: "x = w" by (simp add: walk_from_to_def)
  show ?thesis
  proof (cases "q' = []")
    case True
    with a q x show ?thesis by (simp add: walk_from_to_def)
  next
    case False
    with a q x have "walk_from_to G s (last q') q'" "w \<in> set (neighbors G (last q'))"
      by (auto simp: walk_from_to_def is_walk_snoc)
    with q x show ?thesis by blast
  qed
qed

lemma walk_trivial: "walk_from_to G s s [s]"
  by (simp add: walk_from_to_def)

lemma walk_length: "walk_from_to G s w q \<Longrightarrow> 0 < length q"
  by (auto simp: walk_from_to_def dest: is_walk_nonempty)

section \<open>The search finds shortest walks\<close>

text \<open>
  One round over a level whose nodes all have an entry: old entries stay, a new entry is
  the path of a node of the level extended by a neighbour, and every neighbour of a node
  of the level has an entry afterwards.
\<close>

lemma visit_keeps: "visit pv ws (P, N) = (P', N') \<Longrightarrow> map_of P x = Some p \<Longrightarrow> map_of P' x = Some p"
  by (drule visit_spec) simp

lemma expand_spec:
  "expand G vs (P, N) = (P', N') \<Longrightarrow> set vs \<subseteq> dom (map_of P) \<Longrightarrow>
     (\<forall>x p. map_of P x = Some p \<longrightarrow> map_of P' x = Some p) \<and>
     (\<forall>x p. map_of P x = None \<longrightarrow> map_of P' x = Some p \<longrightarrow>
        (\<exists>v pv. v \<in> set vs \<and> map_of P v = Some pv \<and> x \<in> set (neighbors G v) \<and> p = pv @ [x])) \<and>
     (\<forall>v x. v \<in> set vs \<longrightarrow> x \<in> set (neighbors G v) \<longrightarrow> map_of P' x \<noteq> None)"
proof (induction vs arbitrary: P N)
  case Nil
  then show ?case by auto
next
  case (Cons v vs)
  from Cons.prems(2) obtain pv where pv: "map_of P v = Some pv" by auto
  obtain P1 N1 where v: "visit pv (neighbors G v) (P, N) = (P1, N1)"
    by (cases "visit pv (neighbors G v) (P, N)")
  then have e: "expand G vs (P1, N1) = (P', N')" using Cons.prems(1) pv by simp
  note vs = visit_spec [OF v]
  have P1: "\<And>x. map_of P1 x = (if map_of P x = None \<and> x \<in> set (neighbors G v) then Some (pv @ [x]) else map_of P x)"
    using vs by simp
  have sub: "set vs \<subseteq> dom (map_of P1)"
    using Cons.prems(2) by (auto simp: P1)
  note IH = Cons.IH [OF e sub]
  have A: "\<forall>x p. map_of P x = Some p \<longrightarrow> map_of P' x = Some p"
    using IH by (simp add: P1)
  have B: "\<forall>x p. map_of P x = None \<longrightarrow> map_of P' x = Some p \<longrightarrow>
        (\<exists>u pu. u \<in> set (v # vs) \<and> map_of P u = Some pu \<and> x \<in> set (neighbors G u) \<and> p = pu @ [x])"
  proof (intro allI impI)
    fix x p assume n: "map_of P x = None" and s: "map_of P' x = Some p"
    show "\<exists>u pu. u \<in> set (v # vs) \<and> map_of P u = Some pu \<and> x \<in> set (neighbors G u) \<and> p = pu @ [x]"
    proof (cases "x \<in> set (neighbors G v)")
      case True
      then have "map_of P1 x = Some (pv @ [x])" using n by (simp add: P1)
      with IH s have "p = pv @ [x]" by auto
      with True pv show ?thesis by auto
    next
      case False
      then have "map_of P1 x = None" using n by (simp add: P1)
      with IH s obtain u pu where u: "u \<in> set vs" "map_of P1 u = Some pu"
        "x \<in> set (neighbors G u)" "p = pu @ [x]" by blast
      from u(1) Cons.prems(2) obtain q where q: "map_of P u = Some q" by auto
      then have "map_of P1 u = Some q" by (simp add: P1)
      with u q show ?thesis by auto
    qed
  qed
  have C: "\<forall>u x. u \<in> set (v # vs) \<longrightarrow> x \<in> set (neighbors G u) \<longrightarrow> map_of P' x \<noteq> None"
  proof (intro allI impI)
    fix u x assume u: "u \<in> set (v # vs)" and x: "x \<in> set (neighbors G u)"
    show "map_of P' x \<noteq> None"
    proof (cases "u = v")
      case True
      with x have "map_of P1 x \<noteq> None" by (simp add: P1)
      with IH show ?thesis by auto
    next
      case False
      with u have "u \<in> set vs" by simp
      with IH x show ?thesis by blast
    qed
  qed
  from A B C show ?case by blast
qed

text \<open>
  The invariant holds at the start, every round keeps it, and when the level is empty the
  dictionary has an entry for every node that a walk from the source reaches.
\<close>

lemma level_inv_init: "level_inv G s 0 [(s, [s])] [s]"
proof -
  have "\<And>q. walk_from_to G s s q \<Longrightarrow> length [s] \<le> length q"
    using walk_length [of G s s] by (simp add: Suc_leI)
  then have 1: "shortest_walk G s s [s]"
    unfolding shortest_walk_def using walk_trivial by blast
  have 2: "\<And>w q. walk_from_to G s w q \<Longrightarrow> length q \<le> Suc 0 \<Longrightarrow> w = s"
  proof -
    fix w q assume a: "walk_from_to G s w q" and l: "length q \<le> Suc 0"
    from walk_cases [OF a] show "w = s"
    proof
      assume "q = [s] \<and> w = s" then show ?thesis by simp
    next
      assume "\<exists>q' v. q = q' @ [w] \<and> walk_from_to G s v q' \<and> w \<in> set (neighbors G v)"
      then obtain q' v where "q = q' @ [w]" "walk_from_to G s v q'" by blast
      with l walk_length [of G s v q'] show ?thesis by simp
    qed
  qed
  show ?thesis
    unfolding level_inv_def using 1 2 by (auto split: if_splits)
qed

lemma level_inv_step:
  assumes inv: "level_inv G s k P lvl" and e: "expand G lvl (P, []) = (P', N')"
  shows "level_inv G s (Suc k) P' N'"
proof -
  from inv have i1: "\<And>w p. map_of P w = Some p \<Longrightarrow> shortest_walk G s w p \<and> length p \<le> Suc k"
    and i2: "\<And>w q. walk_from_to G s w q \<Longrightarrow> length q \<le> Suc k \<Longrightarrow> map_of P w \<noteq> None"
    and i3: "set lvl = {w. \<exists>p. map_of P w = Some p \<and> length p = Suc k}"
    unfolding level_inv_def by blast+
  from i3 have sub: "set lvl \<subseteq> dom (map_of P)" by auto
  note es = expand_spec [OF e sub]
  from es have A: "\<And>x p. map_of P x = Some p \<Longrightarrow> map_of P' x = Some p" by blast
  from es have B: "\<And>x p. map_of P x = None \<Longrightarrow> map_of P' x = Some p \<Longrightarrow>
        \<exists>v pv. v \<in> set lvl \<and> map_of P v = Some pv \<and> x \<in> set (neighbors G v) \<and> p = pv @ [x]"
    by blast
  from es have C: "\<And>v x. v \<in> set lvl \<Longrightarrow> x \<in> set (neighbors G v) \<Longrightarrow> map_of P' x \<noteq> None"
    by blast
  from expand_keys [OF e] have D: "set N' = dom (map_of P') - dom (map_of P)" by simp
  have new: "\<And>x p. map_of P x = None \<Longrightarrow> map_of P' x = Some p \<Longrightarrow>
        shortest_walk G s x p \<and> length p = Suc (Suc k)"
  proof -
    fix x p assume n: "map_of P x = None" and s: "map_of P' x = Some p"
    from B [OF n s] obtain v pv where v: "v \<in> set lvl" "map_of P v = Some pv"
      "x \<in> set (neighbors G v)" "p = pv @ [x]" by blast
    from v(1,2) i3 have l: "length pv = Suc k" by auto
    from i1 [OF v(2)] have "walk_from_to G s v pv" by (simp add: shortest_walk_def)
    from walk_extend [OF this v(3)] have w: "walk_from_to G s x p" using v(4) by simp
    have "\<And>q. walk_from_to G s x q \<Longrightarrow> length p \<le> length q"
    proof (rule ccontr)
      fix q assume q: "walk_from_to G s x q" and "\<not> length p \<le> length q"
      with l v(4) have "length q \<le> Suc k" by simp
      from i2 [OF q this] n show False by simp
    qed
    with w l v(4) show "shortest_walk G s x p \<and> length p = Suc (Suc k)"
      by (simp add: shortest_walk_def)
  qed
  have 1: "\<forall>w p. map_of P' w = Some p \<longrightarrow> shortest_walk G s w p \<and> length p \<le> Suc (Suc k)"
  proof (intro allI impI)
    fix w p assume s: "map_of P' w = Some p"
    show "shortest_walk G s w p \<and> length p \<le> Suc (Suc k)"
    proof (cases "map_of P w")
      case None
      from new [OF None s] show ?thesis by simp
    next
      case (Some p0)
      with A s have "p = p0" by fastforce
      with i1 [OF Some] show ?thesis by simp
    qed
  qed
  have 2: "\<forall>w q. walk_from_to G s w q \<and> length q \<le> Suc (Suc k) \<longrightarrow> map_of P' w \<noteq> None"
  proof (intro allI impI, elim conjE)
    fix w q assume q: "walk_from_to G s w q" and l: "length q \<le> Suc (Suc k)"
    show "map_of P' w \<noteq> None"
    proof (cases "length q \<le> Suc k")
      case True
      from i2 [OF q True] A show ?thesis by fastforce
    next
      case False
      with l have lq: "length q = Suc (Suc k)" by simp
      from walk_cases [OF q] lq obtain q' v where q': "q = q' @ [w]" "walk_from_to G s v q'"
        "w \<in> set (neighbors G v)" by auto
      with lq have lq': "length q' = Suc k" by simp
      with i2 [OF q'(2)] obtain pv where pv: "map_of P v = Some pv" by auto
      from i1 [OF pv] q'(2) lq' have lpv: "length pv \<le> Suc k" by simp
      show ?thesis
      proof (cases "length pv = Suc k")
        case True
        with pv i3 have "v \<in> set lvl" by simp
        from C [OF this q'(3)] show ?thesis .
      next
        case False
        with lpv have "length (pv @ [w]) \<le> Suc k" by simp
        moreover from i1 [OF pv] have "walk_from_to G s v pv" by (simp add: shortest_walk_def)
        from walk_extend [OF this q'(3)] have "walk_from_to G s w (pv @ [w])" .
        ultimately have "map_of P w \<noteq> None" using i2 by blast
        with A show ?thesis by fastforce
      qed
    qed
  qed
  have 3: "set N' = {w. \<exists>p. map_of P' w = Some p \<and> length p = Suc (Suc k)}"
  proof (intro set_eqI iffI)
    fix w assume "w \<in> set N'"
    with D obtain p where "map_of P w = None" "map_of P' w = Some p" by (auto simp: domIff)
    from new [OF this] this(2) show "w \<in> {w. \<exists>p. map_of P' w = Some p \<and> length p = Suc (Suc k)}"
      by simp
  next
    fix w assume "w \<in> {w. \<exists>p. map_of P' w = Some p \<and> length p = Suc (Suc k)}"
    then obtain p where p: "map_of P' w = Some p" "length p = Suc (Suc k)" by blast
    have "map_of P w = None"
    proof (cases "map_of P w")
      case None then show ?thesis .
    next
      case (Some p0)
      with A p(1) have "p = p0" by fastforce
      with i1 [OF Some] p(2) show ?thesis by simp
    qed
    with p(1) D show "w \<in> set N'" by (auto simp: domIff)
  qed
  from 1 2 3 show ?thesis unfolding level_inv_def by blast
qed

lemma level_inv_final:
  assumes inv: "level_inv G s k P []" and q: "walk_from_to G s w q"
  shows "map_of P w \<noteq> None"
  using q
proof (induction q arbitrary: w rule: length_induct)
  case (1 q)
  from inv have i1: "\<And>w p. map_of P w = Some p \<Longrightarrow> shortest_walk G s w p \<and> length p \<le> Suc k"
    and i2: "\<And>w q. walk_from_to G s w q \<Longrightarrow> length q \<le> Suc k \<Longrightarrow> map_of P w \<noteq> None"
    and i3: "{} = {w. \<exists>p. map_of P w = Some p \<and> length p = Suc k}"
    unfolding level_inv_def by auto
  from walk_cases [OF "1.prems"] show ?case
  proof
    assume "q = [s] \<and> w = s"
    with i2 [OF "1.prems"] show ?thesis by simp
  next
    assume "\<exists>q' v. q = q' @ [w] \<and> walk_from_to G s v q' \<and> w \<in> set (neighbors G v)"
    then obtain q' v where q': "q = q' @ [w]" "walk_from_to G s v q'"
      "w \<in> set (neighbors G v)" by blast
    with "1.IH" obtain pv where pv: "map_of P v = Some pv" by fastforce
    with i3 have "length pv \<noteq> Suc k" by blast
    with i1 [OF pv] have "length (pv @ [w]) \<le> Suc k" by simp
    moreover from i1 [OF pv] have "walk_from_to G s v pv" by (simp add: shortest_walk_def)
    from walk_extend [OF this q'(3)] have "walk_from_to G s w (pv @ [w])" .
    ultimately show ?thesis using i2 by blast
  qed
qed

lemma bfs_correct:
  "level_inv G s k P lvl \<Longrightarrow>
     (\<forall>w p. map_of (bfs G P lvl) w = Some p \<longrightarrow> shortest_walk G s w p) \<and>
     (\<forall>w q. walk_from_to G s w q \<longrightarrow> map_of (bfs G P lvl) w \<noteq> None)"
proof (induction G P lvl arbitrary: k rule: bfs.induct)
  case (1 G P lvl)
  show ?case
  proof (cases "lvl = []")
    case True
    then have b: "bfs G P lvl = P" by (simp add: bfs.simps)
    from "1.prems" True level_inv_final [of G s k P] show ?thesis
      unfolding b by (auto simp: level_inv_def)
  next
    case False
    obtain P' N' where e: "expand G lvl (P, []) = (P', N')"
      by (cases "expand G lvl (P, [])")
    with False have b: "bfs G P lvl = bfs G P' N'" by (simp add: bfs.simps [of G P lvl])
    from level_inv_step [OF "1.prems" e] have "level_inv G s (Suc k) P' N'" .
    from "1.IH" [OF False e [symmetric] this] show ?thesis unfolding b .
  qed
qed

section \<open>What the search returns\<close>

text \<open>
  A path is returned exactly for two nodes joined by a walk, and then it is a shortest
  walk; two nodes not joined by a walk give \<^verbatim>\<open>NetworkXNoPath\<close>, and an end point that
  is not a node gives \<^verbatim>\<open>NodeNotFound\<close>.
\<close>

lemma shortest_path_Inr: "shortest_path G s d = Inr p \<Longrightarrow> shortest_walk G s d p"
  using bfs_correct [OF level_inv_init, of G s]
  by (auto simp: shortest_path_def split: if_splits option.splits)

lemma shortest_path_found:
  "s \<in> set (nodes G) \<Longrightarrow> d \<in> set (nodes G) \<Longrightarrow> walk_from_to G s d q \<Longrightarrow>
     \<exists>p. shortest_path G s d = Inr p"
  using bfs_correct [OF level_inv_init, of G s]
  by (auto simp: shortest_path_def split: if_splits option.splits)

lemma shortest_path_no_path:
  assumes "s \<in> set (nodes G)" and "d \<in> set (nodes G)" and "\<forall>q. \<not> walk_from_to G s d q"
  shows "shortest_path G s d = Inl NetworkXNoPath"
proof (cases "map_of (bfs G [(s, [s])] [s]) d")
  case None
  with assms(1,2) show ?thesis by (simp add: shortest_path_def)
next
  case (Some p)
  with assms(1,2) have "shortest_path G s d = Inr p" by (simp add: shortest_path_def)
  from shortest_path_Inr [OF this] assms(3) show ?thesis by (simp add: shortest_walk_def)
qed

lemma shortest_path_not_node:
  "s \<notin> set (nodes G) \<or> d \<notin> set (nodes G) \<Longrightarrow> shortest_path G s d = Inl NodeNotFound"
  by (auto simp: shortest_path_def)

lemma neighbor_nodes:
  assumes "v \<in> set (neighbors (build_graph df) u)"
  shows "u \<in> set (nodes (build_graph df)) \<and> v \<in> set (nodes (build_graph df))"
proof -
  from assms obtain r where r: "r \<in> set df" "joins u v r"
    by (auto simp: neighbors_build_graph)
  from r(2) have "(u = station r \<and> v = connected_station r) \<or> (u = connected_station r \<and> v = station r)"
    by (auto simp: joins_def)
  with r(1) show ?thesis unfolding nodes_build_graph by blast
qed

lemma walk_nodes:
  assumes "walk_from_to (build_graph df) s d q" and "s \<noteq> d"
  shows "s \<in> set (nodes (build_graph df)) \<and> d \<in> set (nodes (build_graph df))"
proof -
  from walk_cases [OF assms(1)] assms(2) obtain q' v where
    q': "q = q' @ [d]" "walk_from_to (build_graph df) s v q'" "d \<in> set (neighbors (build_graph df) v)"
    by auto
  from neighbor_nodes [OF q'(3)] have d: "d \<in> set (nodes (build_graph df))" by simp
  from q'(2) have ne: "q' \<noteq> []" by (auto dest: walk_length)
  from assms(1) have w: "is_walk (build_graph df) q" and h: "hd q = s"
    by (auto simp: walk_from_to_def)
  from ne q'(1) have l: "Suc 0 < length q" by (cases q') auto
  with w have n: "q ! Suc 0 \<in> set (neighbors (build_graph df) (q ! 0))"
    by (auto simp: is_walk_nth)
  from l h have "q ! 0 = s" by (cases q) auto
  with neighbor_nodes [OF n] d show ?thesis by simp
qed

lemma hop_distance_shortest:
  "shortest_walk G s t p \<Longrightarrow> hop_distance G s t (length p - 1)"
  unfolding hop_distance_def shortest_walk_def
  by (auto intro: diff_le_mono)

section \<open>The interchange loop on a walk\<close>

text \<open>
  Two consecutive stations of a walk in the network of a dataset are joined by a row of the
  dataset, so both lookups of the loop find a row and the loop is a filter over the
  interior positions.
\<close>

lemma walk_pair_rows:
  assumes "is_walk (build_graph df) path" and "Suc j < length path"
  shows "pair_lines df (path ! j) (path ! Suc j) \<noteq> []"
proof -
  from assms have "path ! Suc j \<in> set (neighbors (build_graph df) (path ! j))"
    by (simp add: is_walk_nth)
  then obtain r where "r \<in> set df" "joins (path ! j) (path ! Suc j) r"
    by (auto simp: neighbors_build_graph)
  then show ?thesis
    by (auto simp: pair_lines_joins filter_empty_conv)
qed

lemma walk_resolved:
  assumes "is_walk (build_graph df) path" and "Suc j < length path"
  shows "resolved_line df (path ! j) (path ! Suc j) =
           Some (normalize (hd (pair_lines df (path ! j) (path ! Suc j))))"
  using walk_pair_rows [OF assms]
  by (cases "pair_lines df (path ! j) (path ! Suc j)") (auto simp: resolved_line_def)

lemma interchange_step_acc:
  "interchange_step df path acc i = acc @ interchange_step df path [] i"
  by (simp add: interchange_step_def Let_def)

lemma foldl_interchange_step:
  "foldl (interchange_step df path) acc xs =
     acc @ concat (map (interchange_step df path []) xs)"
proof (induction xs arbitrary: acc)
  case Nil
  show ?case by simp
next
  case (Cons x xs)
  show ?case
    by (simp add: Cons.IH [of "interchange_step df path acc x"])
       (simp add: interchange_step_acc [of df path acc x])
qed

lemma concat_map_if:
  "concat (map (\<lambda>i. if P i then [f i] else []) xs) = map f (filter P xs)"
  by (induction xs) auto

lemma filter_single:
  "distinct xs \<Longrightarrow> k \<in> set xs \<Longrightarrow> P k \<Longrightarrow> (\<forall>i \<in> set xs. i \<noteq> k \<longrightarrow> \<not> P i) \<Longrightarrow>
     filter P xs = [k]"
proof (induction xs)
  case Nil
  then show ?case by simp
next
  case (Cons x xs)
  show ?case
  proof (cases "x = k")
    case True
    with Cons.prems have "\<forall>i \<in> set xs. \<not> P i" by auto
    then have "filter P xs = []" by (simp add: filter_empty_conv)
    with True Cons.prems show ?thesis by simp
  next
    case False
    with Cons show ?thesis by auto
  qed
qed

lemma step_on_walk:
  assumes "is_walk (build_graph df) path" and "1 \<le> i" and "i + 1 < length path"
  shows "length (pair_lines df (path ! (i - 1)) (path ! i)) > 0 \<and>
         length (pair_lines df (path ! i) (path ! (i + 1))) > 0 \<and>
         interchange_step df path acc i =
           (let c = normalize (hd (pair_lines df (path ! (i - 1)) (path ! i)));
                n = normalize (hd (pair_lines df (path ! i) (path ! (i + 1))))
            in if c \<noteq> n then acc @ [(path ! i, c, n)] else acc)"
proof -
  from assms(2) obtain j where j: "i = Suc j" by (cases i) auto
  with assms(3) have "Suc j < length path" by simp
  from walk_pair_rows [OF assms(1) this] j
  have 1: "pair_lines df (path ! (i - 1)) (path ! i) \<noteq> []" by simp
  from assms(3) have "Suc i < length path" by simp
  from walk_pair_rows [OF assms(1) this]
  have 2: "pair_lines df (path ! i) (path ! (i + 1)) \<noteq> []" by simp
  from 1 2 show ?thesis by (simp add: interchange_step_def)
qed

lemma interchanges_walk:
  assumes w: "is_walk (build_graph df) path"
  shows "interchanges df path =
     map (\<lambda>i. (path ! i, lbl df path (i - 1), lbl df path i))
       (filter (\<lambda>i. lbl df path (i - 1) \<noteq> lbl df path i) [1 ..< length path - 1])"
proof -
  have m: "map (interchange_step df path []) [1 ..< length path - 1] =
        map (\<lambda>i. if lbl df path (i - 1) \<noteq> lbl df path i
                  then [(path ! i, lbl df path (i - 1), lbl df path i)] else [])
          [1 ..< length path - 1]"
  proof (rule map_cong [OF refl])
    fix i assume "i \<in> set [1 ..< length path - 1]"
    then have i: "1 \<le> i" "i + 1 < length path" by auto
    from step_on_walk [OF w i, of "[]"]
    show "interchange_step df path [] i =
          (if lbl df path (i - 1) \<noteq> lbl df path i
           then [(path ! i, lbl df path (i - 1), lbl df path i)] else [])"
      using i by (simp add: lbl_def Let_def)
  qed
  show ?thesis
    unfolding interchanges_def foldl_interchange_step m concat_map_if by simp
qed

section \<open>The order of the two stations does not matter\<close>

lemma joins_fun_sym: "joins v u = joins u v"
  by (rule ext) (rule joins_sym)


section \<open>Shortest walks have no shortcut\<close>

text \<open>
  On a shortest walk a station has no neighbour further along the walk than the next
  station: otherwise the stretch between the two could be cut out.
\<close>

lemma walk_append:
  "is_walk G a \<Longrightarrow> is_walk G b \<Longrightarrow> hd b \<in> set (neighbors G (last a)) \<Longrightarrow> is_walk G (a @ b)"
proof (induction a rule: is_walk.induct)
  case (1 G)
  then show ?case by simp
next
  case (2 G v)
  then show ?case by (cases b) auto
next
  case (3 G u v vs)
  then show ?case by auto
qed

lemma is_walk_take: "is_walk G p \<Longrightarrow> 0 < n \<Longrightarrow> is_walk G (take n p)"
  by (auto simp: is_walk_nth)

lemma is_walk_drop: "is_walk G p \<Longrightarrow> n < length p \<Longrightarrow> is_walk G (drop n p)"
  by (auto simp: is_walk_nth)

lemma shortcut:
  assumes s: "shortest_walk G s d p" and i: "i < length p" and j: "j < length p"
    and e: "p ! j \<in> set (neighbors G (p ! i))"
  shows "j \<le> Suc i"
proof (rule ccontr)
  assume "\<not> j \<le> Suc i"
  then have lt: "Suc i < j" by simp
  from s have w: "is_walk G p" and h: "hd p = s" and l: "last p = d"
    and m: "\<And>q. walk_from_to G s d q \<Longrightarrow> length p \<le> length q"
    by (auto simp: shortest_walk_def walk_from_to_def)
  let ?a = "take (Suc i) p" and ?b = "drop j p"
  have ne: "p \<noteq> []" using i by auto
  have a: "is_walk G ?a" using w by (simp add: is_walk_take)
  have b: "is_walk G ?b" using w j by (simp add: is_walk_drop)
  have la: "last ?a = p ! i" using i by (simp add: take_Suc_conv_app_nth)
  have hb: "hd ?b = p ! j" using j by (simp add: hd_drop_conv_nth)
  from walk_append [OF a b] e la hb have wq: "is_walk G (?a @ ?b)" by simp
  have "hd (?a @ ?b) = s" using ne h by (cases p) auto
  moreover have "last (?a @ ?b) = d" using j l by simp
  ultimately have "walk_from_to G s d (?a @ ?b)" using wq by (simp add: walk_from_to_def)
  from m [OF this] i j lt show False by simp
qed

section \<open>The rows behind the displayed line\<close>

text \<open>
  On a shortest walk in the network of a dataset, the rows that have the station at
  position \<open>i\<close> in one cell and a station of the walk in the other are the rows joining it
  to itself, to the station before it or to the station after it; there is one when the
  walk has two stations or more.
\<close>

lemma neighbors_sym:
  "v \<in> set (neighbors (build_graph df) u) \<longleftrightarrow> u \<in> set (neighbors (build_graph df) v)"
  by (simp only: neighbors_build_graph joins_fun_sym [of v u])

lemma adjacent_row_touches:
  assumes "i < length path" and "adjacent_row path i r"
  shows "(station r = path ! i \<and> connected_station r \<in> set path) \<or>
         (connected_station r = path ! i \<and> station r \<in> set path)"
proof -
  from assms obtain x where x: "x \<in> set path" "joins x (path ! i) r"
  proof (cases "joins (path ! i) (path ! i) r")
    case True
    with assms(1) that [of "path ! i"] show ?thesis by simp
  next
    case False
    show ?thesis
    proof (cases "0 < i \<and> joins (path ! (i - 1)) (path ! i) r")
      case True
      with assms(1) that [of "path ! (i - 1)"] show ?thesis by simp
    next
      case b: False
      with False assms(2) have "Suc i < length path" "joins (path ! i) (path ! Suc i) r"
        by (auto simp: adjacent_row_def)
      with that [of "path ! Suc i"] show ?thesis by (simp add: joins_sym [of "path ! Suc i"])
    qed
  qed
  then show ?thesis by (auto simp: joins_def)
qed

lemma touches_adjacent_row:
  assumes s: "shortest_walk (build_graph df) s d path" and i: "i < length path"
    and r: "r \<in> set df"
    and t: "(station r = path ! i \<and> connected_station r \<in> set path) \<or>
            (connected_station r = path ! i \<and> station r \<in> set path)"
  shows "adjacent_row path i r"
proof -
  from t obtain x where x: "x \<in> set path" "joins (path ! i) x r"
    by (auto simp: joins_def)
  from x(1) obtain j where j: "j < length path" "path ! j = x"
    by (auto simp: in_set_conv_nth)
  with x(2) have jn: "joins (path ! i) (path ! j) r" by simp
  with r have 1: "path ! j \<in> set (neighbors (build_graph df) (path ! i))"
    by (auto simp: neighbors_build_graph)
  then have 2: "path ! i \<in> set (neighbors (build_graph df) (path ! j))"
    by (simp add: neighbors_sym [of "path ! i"])
  from shortcut [OF s i j(1) 1] have a: "j \<le> Suc i" .
  from shortcut [OF s j(1) i 2] have b: "i \<le> Suc j" .
  show ?thesis
  proof (cases "j = i")
    case True
    with jn show ?thesis by (simp add: adjacent_row_def)
  next
    case False
    show ?thesis
    proof (cases "j = Suc i")
      case True
      with jn j(1) show ?thesis by (simp add: adjacent_row_def)
    next
      case n: False
      with False a b have "i = Suc j" by simp
      with jn show ?thesis by (simp add: adjacent_row_def joins_sym [of "path ! j"])
    qed
  qed
qed

lemma line_info_shortest:
  assumes "shortest_walk (build_graph df) s d path" and "i < length path"
  shows "line_info df path (path ! i) = map line (filter (adjacent_row path i) df)"
proof -
  have "filter (\<lambda>r. (station r = path ! i \<and> connected_station r \<in> set path) \<or>
                     (connected_station r = path ! i \<and> station r \<in> set path)) df =
        filter (adjacent_row path i) df"
    by (rule filter_cong [OF refl])
      (blast intro: touches_adjacent_row [OF assms] dest: adjacent_row_touches [OF assms(2)])
  then show ?thesis by (simp only: line_info_def)
qed

lemma two_stations:
  assumes "walk_from_to G s d path" and "s \<noteq> d"
  shows "2 \<le> length path"
proof -
  from assms(1) have "path \<noteq> []" "hd path = s" "last path = d"
    by (auto simp: walk_from_to_def dest: is_walk_nonempty)
  with assms(2) show ?thesis by (cases path) (auto split: if_splits simp: Suc_le_eq)
qed

lemma adjacent_rows_exist:
  assumes w: "is_walk (build_graph df) path" and l: "2 \<le> length path" and i: "i < length path"
  shows "filter (adjacent_row path i) df \<noteq> []"
proof (cases "Suc i < length path")
  case True
  with w have "path ! Suc i \<in> set (neighbors (build_graph df) (path ! i))"
    by (simp add: is_walk_nth)
  then obtain r where "r \<in> set df" "joins (path ! i) (path ! Suc i) r"
    by (auto simp: neighbors_build_graph)
  with True show ?thesis by (auto simp: filter_empty_conv adjacent_row_def)
next
  case False
  with l i obtain j where j: "i = Suc j" by (cases i) auto
  with w i have "path ! Suc j \<in> set (neighbors (build_graph df) (path ! j))"
    by (simp add: is_walk_nth)
  then obtain r where "r \<in> set df" "joins (path ! j) (path ! Suc j) r"
    by (auto simp: neighbors_build_graph)
  with j show ?thesis by (auto simp: filter_empty_conv adjacent_row_def)
qed

section \<open>The first and the last row of a pair\<close>

text \<open>
  The line resolved for two consecutive stations of a walk is the normalised line of the
  first row joining them; it is also that of the last such row when all rows joining them
  agree.
\<close>

lemma first_last_agree:
  assumes ne: "filter (joins u v) df \<noteq> []"
    and a: "\<forall>r \<in> set df. \<forall>r' \<in> set df. joins u v r \<and> joins u v r' \<longrightarrow>
              normalize (line r) = normalize (line r')"
  shows "normalize (line (hd (filter (joins u v) df))) =
         normalize (line (last (filter (joins u v) df)))"
proof -
  let ?rs = "filter (joins u v) df"
  from ne have "hd ?rs \<in> set ?rs" "last ?rs \<in> set ?rs"
    by (rule hd_in_set, rule last_in_set)
  then have "hd ?rs \<in> set df \<and> joins u v (hd ?rs)" "last ?rs \<in> set df \<and> joins u v (last ?rs)"
    by simp_all
  with a show ?thesis by blast
qed

lemma lbl_first_row:
  assumes "is_walk (build_graph df) path" and "Suc j < length path"
  shows "filter (joins (path ! j) (path ! Suc j)) df \<noteq> [] \<and>
         lbl df path j = normalize (line (hd (filter (joins (path ! j) (path ! Suc j)) df)))"
proof -
  from walk_pair_rows [OF assms] have ne: "filter (joins (path ! j) (path ! Suc j)) df \<noteq> []"
    by (simp add: pair_lines_joins)
  then show ?thesis by (simp add: lbl_def pair_lines_joins hd_map)
qed

section \<open>The stations offered for selection\<close>

text \<open>
  The two select boxes offer the list \<^verbatim>\<open>stations\<close>, whose elements are the nodes of the
  graph. For a source and a destination taken from it, the search raises nothing but
  \<^verbatim>\<open>NetworkXNoPath\<close>, which the handler catches: no exception leaves the handler.
\<close>

lemma selected_stations_are_nodes: "set (stations df) = set (nodes (build_graph df))"
  by (simp add: stations_def nodes_build_graph)

lemma selected_stations_no_exception:
  assumes "source \<in> set (stations df)" and "destination \<in> set (stations df)"
  shows "get_route df (build_graph df) source destination \<noteq> Uncaught e"
proof -
  from assms have n: "source \<in> set (nodes (build_graph df))" "destination \<in> set (nodes (build_graph df))"
    by (simp_all add: selected_stations_are_nodes)
  then have "shortest_path (build_graph df) source destination \<noteq> Inl NodeNotFound"
    by (simp add: shortest_path_def split: option.splits)
  then show ?thesis
    by (auto simp: get_route_def split: sum.splits nx_exception.splits)
qed

section \<open>The claims\<close>

subsection \<open>The station list\<close>

text \<open>
  C6: for every dataset, the list of stations offered for selection is sorted, has no
  duplicates, and its elements are exactly the values of the \<^verbatim>\<open>Station\<close> column together
  with the values of the \<^verbatim>\<open>Connected_Station\<close> column.
\<close>

theorem stations_sorted_distinct_union:
  "sorted (stations df) \<and> distinct (stations df) \<and>
   set (stations df) = station ` set df \<union> connected_station ` set df"
  by (simp add: stations_def)

subsection \<open>Equal source and destination\<close>

text \<open>
  C2: for every station A, a request with source A and destination A is answered with the
  warning for equal stations. The test precedes the search, so the answer is the same for
  every dataset and every graph, whether or not A is a node of it.
\<close>

theorem same_station_warning: "get_route df G a a = Warning_same_station"
  by (simp add: get_route_def)

subsection \<open>Stops and time\<close>

text \<open>
  C5: whenever a route is found, the path shown is the one the search returned, the total of
  stops reported is its length minus 1, and the estimated time is that number times 2.
\<close>

theorem stops_and_time:
  "get_route df G s d = Route_found r \<Longrightarrow>
     shortest_path G s d = Inr (path_of r) \<and>
     total_stops r = int (length (path_of r)) - 1 \<and>
     estimated_time r = (int (length (path_of r)) - 1) * 2"
  by (auto simp: get_route_def annotate_def split: if_splits sum.splits nx_exception.splits)

theorem stops_and_time_witness:
  "get_route scenario (build_graph scenario) ''A'' ''D'' =
     Route_found (annotate scenario [''A'', ''B'', ''C'', ''D'']) \<and>
   total_stops (annotate scenario [''A'', ''B'', ''C'', ''D'']) = 3 \<and>
   estimated_time (annotate scenario [''A'', ''B'', ''C'', ''D'']) = 6"
proof -
  have h: "get_route scenario (build_graph scenario) ''A'' ''D'' =
             Route_found (annotate scenario [''A'', ''B'', ''C'', ''D''])"
    by code_simp
  from stops_and_time [OF h] h show ?thesis
    by (simp add: annotate_def)
qed

subsection \<open>The route is a shortest one\<close>

text \<open>
  C1: for every two different stations joined by a walk in the network of the dataset (the
  same connected component), a route is found; its path starts at the source, ends at the
  destination, every two consecutive stations of it are neighbours in the network, and its
  length minus 1 is the hop distance from the source to the destination: the least number
  of edges of a walk between them.
\<close>

theorem find_route_shortest:
  assumes "source \<noteq> destination"
    and "walk_from_to (build_graph df) source destination q"
  shows "\<exists>r. get_route df (build_graph df) source destination = Route_found r \<and>
           hd (path_of r) = source \<and> last (path_of r) = destination \<and>
           is_walk (build_graph df) (path_of r) \<and>
           hop_distance (build_graph df) source destination (length (path_of r) - 1)"
proof -
  from walk_nodes [OF assms(2,1)] shortest_path_found [OF _ _ assms(2)]
  obtain p where p: "shortest_path (build_graph df) source destination = Inr p" by blast
  from shortest_path_Inr [OF p] have s: "shortest_walk (build_graph df) source destination p" .
  from p assms(1) have "get_route df (build_graph df) source destination = Route_found (annotate df p)"
    by (simp add: get_route_def)
  moreover have "path_of (annotate df p) = p" by (simp add: annotate_def)
  ultimately show ?thesis
    using s hop_distance_shortest [OF s] by (auto simp: shortest_walk_def walk_from_to_def)
qed

theorem find_route_shortest_witness:
  "''A'' \<noteq> ''D'' \<and>
   walk_from_to (build_graph scenario) ''A'' ''D'' [''A'', ''B'', ''C'', ''D''] \<and>
   (\<exists>r. get_route scenario (build_graph scenario) ''A'' ''D'' = Route_found r \<and>
        hd (path_of r) = ''A'' \<and> last (path_of r) = ''D'' \<and>
        is_walk (build_graph scenario) (path_of r) \<and>
        hop_distance (build_graph scenario) ''A'' ''D'' (length (path_of r) - 1))"
proof -
  have h1: "''A'' \<noteq> ''D''" by simp
  have h2: "walk_from_to (build_graph scenario) ''A'' ''D'' [''A'', ''B'', ''C'', ''D'']"
    by code_simp
  from find_route_shortest [OF h1 h2] h1 h2 show ?thesis by blast
qed

subsection \<open>No path\<close>

text \<open>
  C3: for every two different stations that are both nodes of the network and that no walk
  joins (different connected components), the handler shows the error for no path: neither
  a route nor anything else.
\<close>

theorem no_path_error:
  assumes "source \<noteq> destination"
    and "source \<in> set (nodes (build_graph df))"
    and "destination \<in> set (nodes (build_graph df))"
    and "\<forall>q. \<not> walk_from_to (build_graph df) source destination q"
  shows "get_route df (build_graph df) source destination = Error_no_path"
  using assms shortest_path_no_path [OF assms(2,3,4)] by (simp add: get_route_def)

theorem no_path_error_witness:
  "''A'' \<noteq> ''X'' \<and> ''A'' \<in> set (nodes (build_graph two_parts)) \<and>
   ''X'' \<in> set (nodes (build_graph two_parts)) \<and>
   (\<forall>q. \<not> walk_from_to (build_graph two_parts) ''A'' ''X'' q) \<and>
   get_route two_parts (build_graph two_parts) ''A'' ''X'' = Error_no_path"
proof -
  have h1: "''A'' \<noteq> ''X''" by simp
  have h2: "''A'' \<in> set (nodes (build_graph two_parts))" by code_simp
  have h3: "''X'' \<in> set (nodes (build_graph two_parts))" by code_simp
  have e: "shortest_path (build_graph two_parts) ''A'' ''X'' = Inl NetworkXNoPath"
    by code_simp
  have h4: "\<forall>q. \<not> walk_from_to (build_graph two_parts) ''A'' ''X'' q"
    using shortest_path_found [OF h2 h3] e by auto
  from no_path_error [OF h1 h2 h3 h4] h1 h2 h3 h4 show ?thesis by blast
qed

subsection \<open>The lookups of the interchange loop\<close>

text \<open>
  C10: for every walk in the network built from the dataset (every path the search returns
  is one) and every interior position \<open>i\<close> of it, the lookup of the rows for the pair before
  \<open>i\<close> and the lookup for the pair after \<open>i\<close> each find at least one row, so the guard on
  empty lookups always lets the comparison happen.
\<close>

theorem lookups_nonempty:
  assumes "is_walk (build_graph df) path" and "1 \<le> i" and "i + 1 < length path"
  shows "length (pair_lines df (path ! (i - 1)) (path ! i)) > 0 \<and>
         length (pair_lines df (path ! i) (path ! (i + 1))) > 0 \<and>
         interchange_step df path acc i =
           (let c = normalize (hd (pair_lines df (path ! (i - 1)) (path ! i)));
                n = normalize (hd (pair_lines df (path ! i) (path ! (i + 1))))
            in if c \<noteq> n then acc @ [(path ! i, c, n)] else acc)"
  using assms by (rule step_on_walk)

theorem lookups_nonempty_witness:
  "is_walk (build_graph scenario) [''A'', ''B'', ''C'', ''D''] \<and>
   length (pair_lines scenario ''B'' ''C'') > 0 \<and> length (pair_lines scenario ''C'' ''D'') > 0 \<and>
   interchange_step scenario [''A'', ''B'', ''C'', ''D''] [] 2 = [(''C'', ''Red'', ''Blue'')]"
proof -
  have h: "is_walk (build_graph scenario) [''A'', ''B'', ''C'', ''D'']" by code_simp
  have e: "normalize (hd (pair_lines scenario ''B'' ''C'')) = ''Red''"
    "normalize (hd (pair_lines scenario ''C'' ''D'')) = ''Blue''" by code_simp+
  from lookups_nonempty [OF h, of 2 "[]"] h e show ?thesis by (simp add: numeral_2_eq_2)
qed

subsection \<open>Interchanges\<close>

text \<open>
  C7, as stated, compares the lines of the edges of the network. With the rows blue, red
  for the pair A, B followed by B - C on the blue line, the edges A - B and B - C of the
  network carry different lines (red and blue), yet no interchange is reported at B on the
  shortest path from A to C; with the rows red, blue for A, B both edges carry the blue
  line, yet an interchange from red to blue is reported at B.
\<close>

theorem interchange_against_network_lines:
  "shortest_path (build_graph swapped) ''A'' ''C'' = Inr [''A'', ''B'', ''C''] \<and>
   edge_line (build_graph swapped) ''A'' ''B'' = Some ''Red'' \<and>
   edge_line (build_graph swapped) ''B'' ''C'' = Some ''Blue'' \<and>
   interchanges_of (annotate swapped [''A'', ''B'', ''C'']) = [] \<and>
   shortest_path (build_graph doubled) ''A'' ''C'' = Inr [''A'', ''B'', ''C''] \<and>
   edge_line (build_graph doubled) ''A'' ''B'' = Some ''Blue'' \<and>
   edge_line (build_graph doubled) ''B'' ''C'' = Some ''Blue'' \<and>
   interchanges_of (annotate doubled [''A'', ''B'', ''C'']) = [(''B'', ''Red'', ''Blue'')]"
  by code_simp

text \<open>
  C7, amended: for every walk in the network built from the dataset (every path the search
  returns is one), each pair of consecutive stations is joined by a row; take for it the
  normalised line of the first row of the dataset joining the two stations, which is the
  line of the edge of the network whenever all rows joining the two stations agree. Then
  the interchanges of the annotated path are, in path order, exactly the interior stations
  at which the line so taken for the pair before differs from the one for the pair after,
  each with these two lines. In particular there is none when no interior station has such
  a change, and when exactly one has, the list is that station with its two lines.
\<close>

theorem interchanges_first_rows:
  assumes "is_walk (build_graph df) path"
  shows "\<exists>ls. length ls = length path - 1 \<and>
      (\<forall>j < length path - 1.
         filter (joins (path ! j) (path ! Suc j)) df \<noteq> [] \<and>
         ls ! j = normalize (line (hd (filter (joins (path ! j) (path ! Suc j)) df))) \<and>
         ((\<forall>r \<in> set df. \<forall>r' \<in> set df.
             joins (path ! j) (path ! Suc j) r \<and> joins (path ! j) (path ! Suc j) r' \<longrightarrow>
             normalize (line r) = normalize (line r')) \<longrightarrow>
          edge_line (build_graph df) (path ! j) (path ! Suc j) = Some (ls ! j))) \<and>
      interchanges_of (annotate df path) =
        map (\<lambda>i. (path ! i, ls ! (i - 1), ls ! i))
          (filter (\<lambda>i. ls ! (i - 1) \<noteq> ls ! i) [1 ..< length path - 1]) \<and>
      ((\<forall>i. 1 \<le> i \<and> i < length path - 1 \<longrightarrow> ls ! (i - 1) = ls ! i) \<longrightarrow>
         interchanges_of (annotate df path) = []) \<and>
      (\<forall>k. 1 \<le> k \<and> k < length path - 1 \<and> ls ! (k - 1) \<noteq> ls ! k \<and>
           (\<forall>i. 1 \<le> i \<and> i < length path - 1 \<and> i \<noteq> k \<longrightarrow> ls ! (i - 1) = ls ! i) \<longrightarrow>
         interchanges_of (annotate df path) = [(path ! k, ls ! (k - 1), ls ! k)])"
proof -
  let ?n = "length path - 1"
  let ?ls = "path_lines df path"
  let ?P = "\<lambda>i. ?ls ! (i - 1) \<noteq> ?ls ! i"
  let ?f = "\<lambda>i. (path ! i, ?ls ! (i - 1), ?ls ! i)"
  have io: "interchanges_of (annotate df path) = interchanges df path"
    by (simp add: annotate_def)
  have len: "length ?ls = ?n" by (simp add: path_lines_def)
  have nth: "\<And>j. j < ?n \<Longrightarrow> ?ls ! j = lbl df path j" by (simp add: path_lines_def)
  have res: "\<forall>j < ?n.
         filter (joins (path ! j) (path ! Suc j)) df \<noteq> [] \<and>
         ?ls ! j = normalize (line (hd (filter (joins (path ! j) (path ! Suc j)) df))) \<and>
         ((\<forall>r \<in> set df. \<forall>r' \<in> set df.
             joins (path ! j) (path ! Suc j) r \<and> joins (path ! j) (path ! Suc j) r' \<longrightarrow>
             normalize (line r) = normalize (line r')) \<longrightarrow>
          edge_line (build_graph df) (path ! j) (path ! Suc j) = Some (?ls ! j))"
  proof (intro allI impI)
    fix j assume j: "j < ?n"
    then have "Suc j < length path" by simp
    from lbl_first_row [OF assms this] nth [OF j]
    have ne: "filter (joins (path ! j) (path ! Suc j)) df \<noteq> []"
      and l: "?ls ! j = normalize (line (hd (filter (joins (path ! j) (path ! Suc j)) df)))"
      by simp_all
    have "(\<forall>r \<in> set df. \<forall>r' \<in> set df.
             joins (path ! j) (path ! Suc j) r \<and> joins (path ! j) (path ! Suc j) r' \<longrightarrow>
             normalize (line r) = normalize (line r')) \<longrightarrow>
          edge_line (build_graph df) (path ! j) (path ! Suc j) = Some (?ls ! j)"
    proof
      assume a: "\<forall>r \<in> set df. \<forall>r' \<in> set df.
             joins (path ! j) (path ! Suc j) r \<and> joins (path ! j) (path ! Suc j) r' \<longrightarrow>
             normalize (line r) = normalize (line r')"
      from first_last_agree [OF ne a] l ne
      show "edge_line (build_graph df) (path ! j) (path ! Suc j) = Some (?ls ! j)"
        by (simp add: edge_line_build_graph)
    qed
    with ne l show "filter (joins (path ! j) (path ! Suc j)) df \<noteq> [] \<and>
         ?ls ! j = normalize (line (hd (filter (joins (path ! j) (path ! Suc j)) df))) \<and>
         ((\<forall>r \<in> set df. \<forall>r' \<in> set df.
             joins (path ! j) (path ! Suc j) r \<and> joins (path ! j) (path ! Suc j) r' \<longrightarrow>
             normalize (line r) = normalize (line r')) \<longrightarrow>
          edge_line (build_graph df) (path ! j) (path ! Suc j) = Some (?ls ! j))"
      by (intro conjI)
  qed
  have fl: "filter (\<lambda>i. lbl df path (i - 1) \<noteq> lbl df path i) [1 ..< ?n] = filter ?P [1 ..< ?n]"
    by (rule filter_cong [OF refl]) (auto simp: nth)
  have mp: "map (\<lambda>i. (path ! i, lbl df path (i - 1), lbl df path i)) (filter ?P [1 ..< ?n]) =
            map ?f (filter ?P [1 ..< ?n])"
    by (rule map_cong [OF refl]) (auto simp: nth)
  have eq: "interchanges_of (annotate df path) = map ?f (filter ?P [1 ..< ?n])"
    unfolding io interchanges_walk [OF assms] fl mp ..
  have none: "(\<forall>i. 1 \<le> i \<and> i < ?n \<longrightarrow> ?ls ! (i - 1) = ?ls ! i) \<longrightarrow>
                interchanges_of (annotate df path) = []"
  proof
    assume "\<forall>i. 1 \<le> i \<and> i < ?n \<longrightarrow> ?ls ! (i - 1) = ?ls ! i"
    then have "filter ?P [1 ..< ?n] = []" by (auto simp: filter_empty_conv)
    with eq show "interchanges_of (annotate df path) = []" by simp
  qed
  have one: "\<forall>k. 1 \<le> k \<and> k < ?n \<and> ?ls ! (k - 1) \<noteq> ?ls ! k \<and>
           (\<forall>i. 1 \<le> i \<and> i < ?n \<and> i \<noteq> k \<longrightarrow> ?ls ! (i - 1) = ?ls ! i) \<longrightarrow>
         interchanges_of (annotate df path) = [(path ! k, ?ls ! (k - 1), ?ls ! k)]"
  proof (intro allI impI, elim conjE)
    fix k assume k: "1 \<le> k" "k < ?n" "?ls ! (k - 1) \<noteq> ?ls ! k"
      and o: "\<forall>i. 1 \<le> i \<and> i < ?n \<and> i \<noteq> k \<longrightarrow> ?ls ! (i - 1) = ?ls ! i"
    have "filter ?P [1 ..< ?n] = [k]"
    proof (rule filter_single)
      show "distinct [1 ..< ?n]" by simp
      show "k \<in> set [1 ..< ?n]" using k by simp
      show "?ls ! (k - 1) \<noteq> ?ls ! k" by (rule k(3))
      show "\<forall>i \<in> set [1 ..< ?n]. i \<noteq> k \<longrightarrow> \<not> ?ls ! (i - 1) \<noteq> ?ls ! i" using o by auto
    qed
    with eq show "interchanges_of (annotate df path) = [(path ! k, ?ls ! (k - 1), ?ls ! k)]"
      by simp
  qed
  show ?thesis
    by (rule exI [of _ ?ls]) (intro conjI len res eq none one)
qed

theorem interchanges_first_rows_witness:
  "is_walk (build_graph doubled) [''A'', ''B'', ''C''] \<and>
   interchanges_of (annotate doubled [''A'', ''B'', ''C'']) = [(''B'', ''Red'', ''Blue'')] \<and>
   normalize (line (hd (filter (joins ''A'' ''B'') doubled))) = ''Red'' \<and>
   normalize (line (hd (filter (joins ''B'' ''C'') doubled))) = ''Blue'' \<and>
   (\<exists>ls. length ls = length [''A'', ''B'', ''C''] - 1 \<and>
      (\<forall>j < length [''A'', ''B'', ''C''] - 1.
         filter (joins ([''A'', ''B'', ''C''] ! j) ([''A'', ''B'', ''C''] ! Suc j)) doubled \<noteq> [] \<and>
         ls ! j = normalize (line (hd (filter (joins ([''A'', ''B'', ''C''] ! j) ([''A'', ''B'', ''C''] ! Suc j)) doubled))) \<and>
         ((\<forall>r \<in> set doubled. \<forall>r' \<in> set doubled.
             joins ([''A'', ''B'', ''C''] ! j) ([''A'', ''B'', ''C''] ! Suc j) r \<and> joins ([''A'', ''B'', ''C''] ! j) ([''A'', ''B'', ''C''] ! Suc j) r' \<longrightarrow>
             normalize (line r) = normalize (line r')) \<longrightarrow>
          edge_line (build_graph doubled) ([''A'', ''B'', ''C''] ! j) ([''A'', ''B'', ''C''] ! Suc j) = Some (ls ! j))) \<and>
      interchanges_of (annotate doubled [''A'', ''B'', ''C'']) =
        map (\<lambda>i. ([''A'', ''B'', ''C''] ! i, ls ! (i - 1), ls ! i))
          (filter (\<lambda>i. ls ! (i - 1) \<noteq> ls ! i) [1 ..< length [''A'', ''B'', ''C''] - 1]) \<and>
      ((\<forall>i. 1 \<le> i \<and> i < length [''A'', ''B'', ''C''] - 1 \<longrightarrow> ls ! (i - 1) = ls ! i) \<longrightarrow>
         interchanges_of (annotate doubled [''A'', ''B'', ''C'']) = []) \<and>
      (\<forall>k. 1 \<le> k \<and> k < length [''A'', ''B'', ''C''] - 1 \<and> ls ! (k - 1) \<noteq> ls ! k \<and>
           (\<forall>i. 1 \<le> i \<and> i < length [''A'', ''B'', ''C''] - 1 \<and> i \<noteq> k \<longrightarrow> ls ! (i - 1) = ls ! i) \<longrightarrow>
         interchanges_of (annotate doubled [''A'', ''B'', ''C'']) = [([''A'', ''B'', ''C''] ! k, ls ! (k - 1), ls ! k)]))"
proof -
  have h: "is_walk (build_graph doubled) [''A'', ''B'', ''C'']" by code_simp
  have e: "interchanges_of (annotate doubled [''A'', ''B'', ''C'']) = [(''B'', ''Red'', ''Blue'')]"
    by code_simp
  have v: "normalize (line (hd (filter (joins ''A'' ''B'') doubled))) = ''Red''"
    "normalize (line (hd (filter (joins ''B'' ''C'') doubled))) = ''Blue''"
    by code_simp+
  show ?thesis by (intro conjI h e v interchanges_first_rows [OF h])
qed

subsection \<open>Several rows for one pair of stations\<close>




subsection \<open>The line displayed beside a station\<close>

text \<open>
  C8, as stated, says that the line displayed for a station other than the first is the
  line of the edge from the previous station. In the scenario of the spec, on the route
  from D to A, the second station C is displayed with the red line, the line of the edge to
  the next station B, while the edge from the previous station D carries the blue line.
\<close>

theorem displayed_line_outgoing:
  "shortest_path (build_graph scenario) ''D'' ''A'' = Inr [''D'', ''C'', ''B'', ''A''] \<and>
   displayed (annotate scenario [''D'', ''C'', ''B'', ''A'']) ! 1 = (2, ''C'', White_circle, ''Red'') \<and>
   edge_line (build_graph scenario) ''D'' ''C'' = Some ''Blue'' \<and>
   resolved_line scenario ''D'' ''C'' = Some ''Blue'' \<and>
   edge_line (build_graph scenario) ''C'' ''B'' = Some ''Red''"
  by code_simp

text \<open>
  C8, amended: on a shortest path between two different stations, the line displayed for
  the station at position \<open>i\<close> is the normalised line of the first row of the dataset that
  has this station in one cell and a station of the path in the other; these rows are the
  rows joining the station to the previous station, to the next station or to itself, and
  there is at least one. So the first station shows a line of its outgoing edge and the
  last station a line of its incoming edge (rows from a station to itself aside), and a
  station in between shows the line of whichever of its two edges has the earlier row.
\<close>

theorem displayed_line:
  assumes "shortest_walk (build_graph df) s d path" and "s \<noteq> d" and "i < length path"
  shows "displayed (annotate df path) ! i =
           (i + 1, path ! i, emoji_of (line_str df path (path ! i)), line_str df path (path ! i)) \<and>
         line_info df path (path ! i) = map line (filter (adjacent_row path i) df) \<and>
         filter (adjacent_row path i) df \<noteq> [] \<and>
         line_str df path (path ! i) = normalize (line (hd (filter (adjacent_row path i) df)))"
proof -
  from assms(1) have w: "walk_from_to (build_graph df) s d path"
    by (simp add: shortest_walk_def)
  then have iw: "is_walk (build_graph df) path" by (simp add: walk_from_to_def)
  note ne = adjacent_rows_exist [OF iw two_stations [OF w assms(2)] assms(3)]
  note li = line_info_shortest [OF assms(1,3)]
  have 1: "displayed (annotate df path) ! i =
           (i + 1, path ! i, emoji_of (line_str df path (path ! i)), line_str df path (path ! i))"
    using assms(3) by (simp add: annotate_def route_path_def nth_enumerate_eq)
  have 2: "line_str df path (path ! i) = normalize (line (hd (filter (adjacent_row path i) df)))"
    using ne by (simp add: line_str_def li hd_map)
  from 1 li ne 2 show ?thesis by blast
qed

theorem displayed_line_witness:
  "shortest_walk (build_graph scenario) ''D'' ''A'' [''D'', ''C'', ''B'', ''A''] \<and> ''D'' \<noteq> ''A'' \<and>
   line_info scenario [''D'', ''C'', ''B'', ''A''] ''C'' =
     map line (filter (adjacent_row [''D'', ''C'', ''B'', ''A''] 1) scenario) \<and>
   filter (adjacent_row [''D'', ''C'', ''B'', ''A''] 1) scenario =
     [\<lparr>station = ''B'', connected_station = ''C'', line = ''red''\<rparr>,
      \<lparr>station = ''C'', connected_station = ''D'', line = ''blue''\<rparr>] \<and>
   line_str scenario [''D'', ''C'', ''B'', ''A''] ''C'' = ''Red''"
proof -
  have e: "shortest_path (build_graph scenario) ''D'' ''A'' = Inr [''D'', ''C'', ''B'', ''A'']"
    by code_simp
  have h1: "shortest_walk (build_graph scenario) ''D'' ''A'' [''D'', ''C'', ''B'', ''A'']"
    by (rule shortest_path_Inr [OF e])
  have h2: "''D'' \<noteq> ''A''" by simp
  have h3: "1 < length [''D'', ''C'', ''B'', ''A'']" by simp
  have f: "filter (adjacent_row [''D'', ''C'', ''B'', ''A''] 1) scenario =
     [\<lparr>station = ''B'', connected_station = ''C'', line = ''red''\<rparr>,
      \<lparr>station = ''C'', connected_station = ''D'', line = ''blue''\<rparr>]"
    by code_simp
  have g: "normalize ''red'' = ''Red''" by code_simp
  from displayed_line [OF h1 h2 h3] h1 h2 f g show ?thesis by simp
qed

end
